theory Spec2Isabelle
  imports Main "HOL-Library.Word" "HOL-Library.Monad_Syntax"
begin

unbundle bit_operations_syntax

section \<open>Machine types\<close>

text \<open>
  Go's \<open>uint64\<close>, \<open>uint32\<close> and \<open>byte\<close> are words of the same width. An \<open>int64\<close> is
  held as its 64 two's-complement bits and read with \<open>sint\<close>; the conversions
  \<open>uint64(seed)\<close> and \<open>int64(x)\<close> keep the bits, so on this representation they are
  the identity.
\<close>

type_synonym uint64 = "64 word"
type_synonym uint32 = "32 word"
type_synonym int64 = "64 word"
type_synonym byte = "8 word"

section \<open>The xoshiro256** generator\<close>

text \<open>The struct \<open>UnsafeXoshiro256ssRNG\<close> holds the array \<open>s [4]uint64\<close>.\<close>

record UnsafeXoshiro256ssRNG =
  s0 :: uint64
  s1 :: uint64
  s2 :: uint64
  s3 :: uint64

text \<open>Reading and writing \<open>r.s[i]\<close>; the only indices the source uses are 0 to 3.\<close>

definition s_get :: "UnsafeXoshiro256ssRNG \<Rightarrow> nat \<Rightarrow> uint64" where
  "s_get r i = (if i = 0 then s0 r else if i = 1 then s1 r else if i = 2 then s2 r else s3 r)"

definition s_set :: "UnsafeXoshiro256ssRNG \<Rightarrow> nat \<Rightarrow> uint64 \<Rightarrow> UnsafeXoshiro256ssRNG" where
  "s_set r i v = (if i = 0 then r\<lparr>s0 := v\<rparr> else if i = 1 then r\<lparr>s1 := v\<rparr>
                  else if i = 2 then r\<lparr>s2 := v\<rparr> else r\<lparr>s3 := v\<rparr>)"

text \<open>
  \<open>rol64\<close>: Go's shifts take an unsigned count and give 0 once the count reaches the
  width, as \<open>push_bit\<close> and \<open>drop_bit\<close> do on words; \<open>64 - k\<close> is a \<open>uint64\<close>
  subtraction.
\<close>

definition rol64 :: "uint64 \<Rightarrow> uint64 \<Rightarrow> uint64" where
  "rol64 x k = push_bit (unat k) x OR drop_bit (unat (64 - k)) x"

definition splitmix64 :: "uint64 \<Rightarrow> uint64" where
  "splitmix64 index =
     (let z = index + 0x9E3779B97F4A7C15;
          z = (z XOR drop_bit 30 z) * 0xBF58476D1CE4E5B9;
          z = (z XOR drop_bit 27 z) * 0x94D049BB133111EB;
          z = z XOR drop_bit 31 z
      in z)"

text \<open>\<open>Uint64\<close> returns the output word and the generator after the step.\<close>

definition Uint64 :: "UnsafeXoshiro256ssRNG \<Rightarrow> uint64 \<times> UnsafeXoshiro256ssRNG" where
  "Uint64 r =
     (let result = rol64 (s1 r * 5) 7 * 9;
          t = push_bit 17 (s1 r);
          r = r\<lparr>s2 := s2 r XOR s0 r\<rparr>;
          r = r\<lparr>s3 := s3 r XOR s1 r\<rparr>;
          r = r\<lparr>s1 := s1 r XOR s2 r\<rparr>;
          r = r\<lparr>s0 := s0 r XOR s3 r\<rparr>;
          r = r\<lparr>s2 := s2 r XOR t\<rparr>;
          r = r\<lparr>s3 := rol64 (s3 r) 45\<rparr>
      in (result, r))"

text \<open>
  \<open>Seed\<close>: the inner loop \<open>for r.s[i] == 0 { r.s[i] = splitmix64(uint64(seed) + uint64(i)) }\<close>
  may run forever, so it is a partial function: \<open>None\<close> is the loop that never leaves.
\<close>

partial_function (option) Seed_word :: "int64 \<Rightarrow> nat \<Rightarrow> UnsafeXoshiro256ssRNG \<Rightarrow> UnsafeXoshiro256ssRNG option" where
  "Seed_word seed i r =
     (if s_get r i = 0 then Seed_word seed i (s_set r i (splitmix64 (seed + of_nat i)))
      else Some r)"

declare Seed_word.simps [code]

text \<open>The outer loop \<open>for i := 0; i < len(r.s); i++\<close>, with \<open>len(r.s) = 4\<close>.\<close>

function Seed_from :: "int64 \<Rightarrow> nat \<Rightarrow> UnsafeXoshiro256ssRNG \<Rightarrow> UnsafeXoshiro256ssRNG option" where
  "Seed_from seed i r =
     (if i < 4
      then (case Seed_word seed i r of None \<Rightarrow> None | Some r' \<Rightarrow> Seed_from seed (i + 1) r')
      else Some r)"
  by pat_completeness auto
termination
  by (relation "measure (\<lambda>(seed, i, r). 4 - i)") auto

declare Seed_from.simps [simp del]

definition Seed :: "UnsafeXoshiro256ssRNG \<Rightarrow> int64 \<Rightarrow> UnsafeXoshiro256ssRNG option" where
  "Seed r seed = Seed_from seed 0 r"

text \<open>\<open>NewUnsafeXoshiro256ssRNG\<close> seeds the zero value of the struct.\<close>

definition NewUnsafeXoshiro256ssRNG :: "int64 \<Rightarrow> UnsafeXoshiro256ssRNG option" where
  "NewUnsafeXoshiro256ssRNG seed = Seed \<lparr>s0 = 0, s1 = 0, s2 = 0, s3 = 0\<rparr> seed"

section \<open>Filling a byte slice\<close>

text \<open>
  The interface \<open>UnsafeRNG\<close> has the one method \<open>Uint64\<close>. A generator is a state of
  any type \<open>'g\<close> together with that method, which returns the word drawn and the state
  after the draw.
\<close>

type_synonym 'g UnsafeRNG = "'g \<Rightarrow> uint64 \<times> 'g"

text \<open>
  The assignment \<open>bytes[i] = v\<close>. Go panics on an index outside the slice: \<open>None\<close>.
\<close>

definition store :: "byte list \<Rightarrow> nat \<Rightarrow> byte \<Rightarrow> byte list option" where
  "store bytes i v = (if i < length bytes then Some (bytes[i := v]) else None)"

text \<open>
  The first loop of \<open>Bytes\<close>: eight bytes for each word while at least eight remain.
  \<open>byte(x >> k)\<close> keeps the low eight bits of the shifted word. The counters \<open>i\<close> and
  \<open>bytesToGo\<close> never go below zero (the subtraction runs only when \<open>bytesToGo\<close> is at
  least 8), so they are natural numbers here.
\<close>

function Bytes_chunks ::
  "'g UnsafeRNG \<Rightarrow> 'g \<Rightarrow> byte list \<Rightarrow> nat \<Rightarrow> nat \<Rightarrow> (byte list \<times> nat \<times> 'g) option" where
  "Bytes_chunks Uint64_of r bytes i bytesToGo =
     (if bytesToGo < 8 then Some (bytes, i, r)
      else case Uint64_of r of (x, r) \<Rightarrow>
        do {
          bytes \<leftarrow> store bytes i (ucast x);
          bytes \<leftarrow> store bytes (i + 1) (ucast (drop_bit 8 x));
          bytes \<leftarrow> store bytes (i + 2) (ucast (drop_bit 16 x));
          bytes \<leftarrow> store bytes (i + 3) (ucast (drop_bit 24 x));
          bytes \<leftarrow> store bytes (i + 4) (ucast (drop_bit 32 x));
          bytes \<leftarrow> store bytes (i + 5) (ucast (drop_bit 40 x));
          bytes \<leftarrow> store bytes (i + 6) (ucast (drop_bit 48 x));
          bytes \<leftarrow> store bytes (i + 7) (ucast (drop_bit 56 x));
          Bytes_chunks Uint64_of r bytes (i + 8) (bytesToGo - 8)
        })"
  by pat_completeness auto
termination
  by (relation "measure (\<lambda>(Uint64_of, r, bytes, i, bytesToGo). bytesToGo)") auto

declare Bytes_chunks.simps [simp del]

text \<open>The second loop: one byte at a time from the last word, up to index \<open>n\<close>.\<close>

function Bytes_tail :: "nat \<Rightarrow> uint64 \<Rightarrow> byte list \<Rightarrow> nat \<Rightarrow> byte list option" where
  "Bytes_tail n x bytes i =
     (if i \<ge> n then Some bytes
      else do {
          bytes \<leftarrow> store bytes i (ucast x);
          Bytes_tail n (drop_bit 8 x) bytes (i + 1)
        })"
  by pat_completeness auto
termination
  by (relation "measure (\<lambda>(n, x, bytes, i). n - i)") auto

declare Bytes_tail.simps [simp del]

text \<open>\<open>Bytes\<close> returns the filled slice and the generator after its draws.\<close>

definition Bytes :: "'g UnsafeRNG \<Rightarrow> 'g \<Rightarrow> byte list \<Rightarrow> (byte list \<times> 'g) option" where
  "Bytes Uint64_of r bytes =
     (let n = length bytes in
      do {
        (bytes, i, r) \<leftarrow> Bytes_chunks Uint64_of r bytes 0 n;
        case Uint64_of r of (x, r) \<Rightarrow>
          do {
            bytes \<leftarrow> Bytes_tail n x bytes i;
            Some (bytes, r)
          }
      })"

text \<open>
  A generator that counts its own draws: it wraps any generator and adds one to a
  counter at each call of its method.
\<close>

definition counting :: "'g UnsafeRNG \<Rightarrow> ('g \<times> nat) UnsafeRNG" where
  "counting Uint64_of = (\<lambda>(r, c). case Uint64_of r of (x, r') \<Rightarrow> (x, (r', c + 1)))"

text \<open>
  What the words of the specification mean: the little-endian encoding of a word, and
  the first \<open>k\<close> words a generator draws.
\<close>

definition little_endian :: "uint64 \<Rightarrow> byte list" where
  "little_endian x = map (\<lambda>j. ucast (drop_bit (8 * j) x)) [0..<8]"

fun draw_words :: "'g UnsafeRNG \<Rightarrow> 'g \<Rightarrow> nat \<Rightarrow> uint64 list \<times> 'g" where
  "draw_words Uint64_of r 0 = ([], r)"
| "draw_words Uint64_of r (Suc k) =
     (case Uint64_of r of (x, r') \<Rightarrow>
        case draw_words Uint64_of r' k of (xs, r'') \<Rightarrow> (x # xs, r''))"

text \<open>
  The step function in the words of the specification, on the four state words (here
  \<open>w0\<close> to \<open>w3\<close>), with \<open>word_rotl\<close> as the rotation to the left: steps 1 to 6 in
  their order.
\<close>

definition next_word ::
  "uint64 \<times> uint64 \<times> uint64 \<times> uint64 \<Rightarrow> uint64 \<times> (uint64 \<times> uint64 \<times> uint64 \<times> uint64)" where
  "next_word st =
     (case st of (w0, w1, w2, w3) \<Rightarrow>
        let result = word_rotl 7 (w1 * 5) * 9;
            t = push_bit 17 w1;
            w2 = w2 XOR w0;
            w3 = w3 XOR w1;
            w1 = w1 XOR w2;
            w0 = w0 XOR w3;
            w2 = w2 XOR t;
            w3 = word_rotl 45 w3
        in (result, (w0, w1, w2, w3)))"

section \<open>The pool\<close>

text \<open>
  \<open>ThreadsafePoolRNG\<close> holds a \<open>sync.Pool\<close>: the idle generators and the function \<open>New\<close>
  that makes one. \<open>New\<close> calls the closure given to \<open>NewSyncPoolRNG\<close>; \<open>env\<close> is the state
  that closure reads and writes, and \<open>None\<close> is a closure that does not return.
\<close>

record ('g, 'f) ThreadsafePoolRNG =
  idle :: "'g list"
  New :: "'f \<Rightarrow> ('g \<times> 'f) option"
  env :: 'f

datatype error = Panic string



text \<open>
  \<open>rngPool.Get()\<close> takes any idle generator out of the pool, or ignores the pool and
  calls \<open>New\<close>. Which one is not fixed by \<open>sync.Pool\<close>: the choice is the argument \<open>k\<close>,
  the position of the idle generator taken, and any \<open>k\<close> past the idle ones calls \<open>New\<close>.
  \<open>rngPool.Put(r)\<close> adds \<open>r\<close> to the idle generators.
\<close>

definition rngPool_Get ::
  "nat \<Rightarrow> ('g, 'f) ThreadsafePoolRNG \<Rightarrow> ('g \<times> ('g, 'f) ThreadsafePoolRNG) option" where
  "rngPool_Get k s =
     (if k < length (idle s)
      then Some (idle s ! k, s\<lparr>idle := take k (idle s) @ drop (Suc k) (idle s)\<rparr>)
      else case New s (env s) of
             None \<Rightarrow> None
           | Some (r, e) \<Rightarrow> Some (r, s\<lparr>env := e\<rparr>))"

definition rngPool_Put :: "'g \<Rightarrow> ('g, 'f) ThreadsafePoolRNG \<Rightarrow> ('g, 'f) ThreadsafePoolRNG" where
  "rngPool_Put r s = s\<lparr>idle := r # idle s\<rparr>"

text \<open>
  The methods of the pool take the \<open>Uint64\<close> method of the pooled generators and the
  choice made by \<open>Get\<close>, and return their value with the pool after the call.
\<close>

definition ThreadsafePoolRNG_Uint64 ::
  "'g UnsafeRNG \<Rightarrow> nat \<Rightarrow> ('g, 'f) ThreadsafePoolRNG \<Rightarrow> (uint64 \<times> ('g, 'f) ThreadsafePoolRNG) option" where
  "ThreadsafePoolRNG_Uint64 Uint64_of k s =
     (case rngPool_Get k s of
        None \<Rightarrow> None
      | Some (r, s) \<Rightarrow> (case Uint64_of r of (x, r) \<Rightarrow> Some (x, rngPool_Put r s)))"


text \<open>
  \<open>Seed\<close> on the pool panics at once. The panic is the value \<open>Inl\<close>, returned with the
  pool as the call leaves it.
\<close>

definition ThreadsafePoolRNG_Seed ::
  "('g, 'f) ThreadsafePoolRNG \<Rightarrow> int64 \<Rightarrow> (error + unit) \<times> ('g, 'f) ThreadsafePoolRNG" where
  "ThreadsafePoolRNG_Seed s seed = (Inl (Panic ''Cant seed a ThreadsafePoolRNG''), s)"

text \<open>
  \<open>Uint32n\<close>: \<open>maxN\<close> is a Go \<open>int\<close>, here its value; \<open>uint64(maxN)\<close> is that value
  modulo \<open>2 ^ 64\<close>, and \<open>uint32(\<dots>)\<close> keeps the low 32 bits.
\<close>

definition ThreadsafePoolRNG_Uint32n ::
  "'g UnsafeRNG \<Rightarrow> nat \<Rightarrow> ('g, 'f) ThreadsafePoolRNG \<Rightarrow> int \<Rightarrow> (uint32 \<times> ('g, 'f) ThreadsafePoolRNG) option" where
  "ThreadsafePoolRNG_Uint32n Uint64_of k r maxN =
     (case ThreadsafePoolRNG_Uint64 Uint64_of k r of
        None \<Rightarrow> None
      | Some (w, r) \<Rightarrow>
          let x = w AND 0x00000000FFFFFFFF
          in Some (ucast (drop_bit 32 (x * word_of_int maxN)), r))"

section \<open>The rotation and the seeding loop\<close>

text \<open>For a count strictly between 0 and 64, \<open>rol64\<close> is the rotation to the left.\<close>

lemma rol64_rotl:
  assumes "0 < k" "k < 64"
  shows "rol64 x (of_nat k) = word_rotl k x"
proof (rule bit_word_eqI)
  fix n assume n: "n < LENGTH(64)"
  have uk: "unat (of_nat k :: uint64) = k"
    using assms by (simp add: unat_of_nat)
  have "(of_nat k :: uint64) \<le> 64"
    using assms by (simp add: word_le_nat_alt uk)
  then have uk': "unat ((64 :: uint64) - of_nat k) = 64 - k"
    by (simp add: unat_sub uk)
  have l: "bit (rol64 x (of_nat k)) n = (if k \<le> n then bit x (n - k) else bit x (n + (64 - k)))"
    using assms n unfolding rol64_def uk uk'
    by (auto simp add: bit_simps add.commute dest: bit_imp_le_length)
  have m: "(n + (64 - k mod 64)) mod 64 = (if k \<le> n then n - k else n + (64 - k))"
    using assms n by (auto simp: mod_if)
  have r: "bit (word_rotl k x) n = bit x ((n + (64 - k mod 64)) mod 64)"
    using n by (simp add: bit_word_rotl_iff)
  show "bit (rol64 x (of_nat k)) n = bit (word_rotl k x) n"
    unfolding l r m by simp
qed

lemma rol64_7: "rol64 x 7 = word_rotl 7 x"
  using rol64_rotl [of 7 x] by simp

lemma rol64_45: "rol64 x 45 = word_rotl 45 x"
  using rol64_rotl [of 45 x] by simp

text \<open>
  The inner loop leaves a non-zero word alone; on a zero word it returns exactly when
  the one candidate \<open>splitmix64 (seed + i)\<close> is not zero, since every turn assigns that
  same candidate.
\<close>

lemma Seed_word_unfold_nz: "s_get r i \<noteq> 0 \<Longrightarrow> Seed_word seed i r = Some r"
  by (subst Seed_word.simps) simp

lemma s_set_twice: "s_set (s_set r i v) i v = s_set r i v"
  by (simp add: s_set_def)

lemma s_get_s_set: "s_get (s_set r i v) i = v"
  by (simp add: s_set_def s_get_def)

lemma Seed_word_Some:
  assumes "Seed_word seed i r = Some r'"
  shows "r' = (if s_get r i = 0 then s_set r i (splitmix64 (seed + of_nat i)) else r) \<and> s_get r' i \<noteq> 0"
proof (rule Seed_word.raw_induct [where P = "\<lambda>seed i r r'. 
     r' = (if s_get r i = 0 then s_set r i (splitmix64 (seed + of_nat i)) else r) \<and> s_get r' i \<noteq> 0", OF _ assms])
  fix f seed i r r'
  assume IH: "\<And>seed i r r'. f seed i r = Some r' \<Longrightarrow> 
     r' = (if s_get r i = 0 then s_set r i (splitmix64 (seed + of_nat i)) else r) \<and> s_get r' i \<noteq> 0"
   and step: "(if s_get r i = 0 then f seed i (s_set r i (splitmix64 (seed + of_nat i))) else Some r) = Some r'"
  show "r' = (if s_get r i = 0 then s_set r i (splitmix64 (seed + of_nat i)) else r) \<and> s_get r' i \<noteq> 0"
  proof (cases "s_get r i = 0")
    case True
    with step have "f seed i (s_set r i (splitmix64 (seed + of_nat i))) = Some r'"
      by simp
    from IH [OF this] True show ?thesis
      by (auto simp add: s_set_twice s_get_s_set split: if_splits)
  next
    case False
    with step show ?thesis by simp
  qed
qed

lemma Seed_word_None:
  assumes "s_get r i = 0" "splitmix64 (seed + of_nat i) = 0"
  shows "Seed_word seed i r = None"
proof (cases "Seed_word seed i r")
  case None then show ?thesis .
next
  case (Some r')
  from Seed_word_Some [OF this] assms show ?thesis
    by (auto simp add: s_get_s_set)
qed

lemma Seed_word_eq:
  "Seed_word seed i r =
     (if s_get r i \<noteq> 0 then Some r
      else if splitmix64 (seed + of_nat i) = 0 then None
      else Some (s_set r i (splitmix64 (seed + of_nat i))))"
proof (cases "s_get r i = 0")
  case False
  then show ?thesis by (simp add: Seed_word_unfold_nz)
next
  case z: True
  show ?thesis
  proof (cases "splitmix64 (seed + of_nat i) = 0")
    case True
    with z show ?thesis by (simp add: Seed_word_None)
  next
    case False
    then have "Seed_word seed i (s_set r i (splitmix64 (seed + of_nat i))) = Some (s_set r i (splitmix64 (seed + of_nat i)))"
      by (simp add: Seed_word_unfold_nz s_get_s_set)
    with z False show ?thesis
      by (subst Seed_word.simps) simp
  qed
qed

text \<open>The outer loop, one index at a time, and the new generator in closed form.\<close>

lemma Seed_from_4: "Seed_from seed 4 r = Some r"
  by (subst Seed_from.simps) simp

lemma Seed_from_3: "Seed_from seed 3 r = Seed_word seed 3 r"
  by (subst Seed_from.simps) (simp add: Seed_from_4 split: option.splits)

lemma Seed_from_2:
  "Seed_from seed 2 r = (case Seed_word seed 2 r of None \<Rightarrow> None | Some r' \<Rightarrow> Seed_word seed 3 r')"
  using Seed_from.simps [of seed 2 r] by (simp add: Seed_from_3 cong: option.case_cong)

lemma Seed_from_1:
  "Seed_from seed 1 r = (case Seed_word seed 1 r of None \<Rightarrow> None | Some r' \<Rightarrow> Seed_from seed 2 r')"
  using Seed_from.simps [of seed 1 r] by (simp add: numeral_2_eq_2 cong: option.case_cong)

lemma Seed_from_0:
  "Seed_from seed 0 r = (case Seed_word seed 0 r of None \<Rightarrow> None | Some r' \<Rightarrow> Seed_from seed 1 r')"
  using Seed_from.simps [of seed 0 r] by (simp cong: option.case_cong)

lemma New_closed:
  "NewUnsafeXoshiro256ssRNG seed =
     (if splitmix64 seed = 0 \<or> splitmix64 (seed + 1) = 0
         \<or> splitmix64 (seed + 2) = 0 \<or> splitmix64 (seed + 3) = 0
      then None
      else Some \<lparr>s0 = splitmix64 seed, s1 = splitmix64 (seed + 1),
                  s2 = splitmix64 (seed + 2), s3 = splitmix64 (seed + 3)\<rparr>)"
  unfolding NewUnsafeXoshiro256ssRNG_def Seed_def Seed_from_0 Seed_from_1 Seed_from_2 Seed_word_eq
  by (simp add: s_get_def s_set_def)

text \<open>
  \<open>splitmix64\<close> is a bijection built from an addition, three xor-shifts and two
  multiplications by odd constants, so exactly one word is sent to 0. Seeding a new
  generator does not return for the four seeds that put that word at one of the four
  indices, and returns for every other seed.
\<close>

lemma xor_zero_eq: "a XOR b = 0 \<Longrightarrow> a = b" for a b :: uint64
proof -
  assume h: "a XOR b = 0"
  have "a = (a XOR b) XOR b"
    by (simp add: xor.assoc)
  then show "a = b"
    by (simp add: h)
qed

lemma xorshift_zero:
  fixes z :: uint64
  assumes "z XOR drop_bit k z = 0" "22 \<le> k"
  shows "z = 0"
proof -
  from assms(1) have e: "z = drop_bit k z"
    by (rule xor_zero_eq) 
  then have "z = drop_bit k (drop_bit k (drop_bit k z))"
    by simp
  also have "\<dots> = drop_bit (k + k + k) z"
    by (simp add: drop_bit_drop_bit add.assoc)
  also have "\<dots> = 0"
    using assms(2) by (intro bit_word_eqI) (simp add: bit_simps)
  finally show ?thesis .
qed

lemma mult_zero_1: "z * 0xBF58476D1CE4E5B9 = 0 \<Longrightarrow> z = 0" for z :: uint64
proof -
  assume a: "z * 0xBF58476D1CE4E5B9 = 0"
  have inv: "(0xBF58476D1CE4E5B9 :: uint64) * 10871156337175269513 = 1"
    by simp
  have "z = z * (0xBF58476D1CE4E5B9 * 10871156337175269513)"
    by (simp only: inv mult_1_right)
  also have "\<dots> = (z * 0xBF58476D1CE4E5B9) * 10871156337175269513"
    by (simp only: mult.assoc)
  finally show "z = 0" by (simp only: a mult_zero_left)
qed

lemma mult_zero_2: "z * 0x94D049BB133111EB = 0 \<Longrightarrow> z = 0" for z :: uint64
proof -
  assume a: "z * 0x94D049BB133111EB = 0"
  have inv: "(0x94D049BB133111EB :: uint64) * 3573116690164977347 = 1"
    by simp
  have "z = z * (0x94D049BB133111EB * 3573116690164977347)"
    by (simp only: inv mult_1_right)
  also have "\<dots> = (z * 0x94D049BB133111EB) * 3573116690164977347"
    by (simp only: mult.assoc)
  finally show "z = 0" by (simp only: a mult_zero_left)
qed

lemma splitmix64_zero_iff: "splitmix64 x = 0 \<longleftrightarrow> x = 0x61C8864680B583EB"
proof
  assume z: "splitmix64 x = 0"
  define a where "a = x + 0x9E3779B97F4A7C15"
  define b where "b = (a XOR drop_bit 30 a) * 0xBF58476D1CE4E5B9"
  define c where "c = (b XOR drop_bit 27 b) * 0x94D049BB133111EB"
  from z have "c XOR drop_bit 31 c = 0"
    by (simp add: splitmix64_def Let_def a_def b_def c_def)
  then have "c = 0" by (rule xorshift_zero) simp
  then have "b XOR drop_bit 27 b = 0" unfolding c_def by (rule mult_zero_2)
  then have "b = 0" by (rule xorshift_zero) simp
  then have "a XOR drop_bit 30 a = 0" unfolding b_def by (rule mult_zero_1)
  then have "a = 0" by (rule xorshift_zero) simp
  then have "x = - 0x9E3779B97F4A7C15"
    unfolding a_def by (simp add: eq_neg_iff_add_eq_0)
  then show "x = 0x61C8864680B583EB" by simp
next
  assume "x = 0x61C8864680B583EB"
  then show "splitmix64 x = 0" by (simp add: splitmix64_def)
qed

lemma New_None_iff:
  "NewUnsafeXoshiro256ssRNG seed = None \<longleftrightarrow>
     seed = 0x61C8864680B583EB \<or> seed = 0x61C8864680B583EA
     \<or> seed = 0x61C8864680B583E9 \<or> seed = 0x61C8864680B583E8"
proof -
  have "seed + 1 = 0x61C8864680B583EB \<longleftrightarrow> seed = 0x61C8864680B583EA"
    "seed + 2 = 0x61C8864680B583EB \<longleftrightarrow> seed = 0x61C8864680B583E9"
    "seed + 3 = 0x61C8864680B583EB \<longleftrightarrow> seed = 0x61C8864680B583E8"
    by (auto simp: eq_diff_eq [symmetric])
  then show ?thesis
    by (simp add: New_closed splitmix64_zero_iff)
qed

lemma Seed_nonzero:
  assumes "Seed r0 k = Some r"
  shows "s0 r \<noteq> 0 \<and> s1 r \<noteq> 0 \<and> s2 r \<noteq> 0 \<and> s3 r \<noteq> 0"
  using assms
  unfolding Seed_def Seed_from_0 Seed_from_1 Seed_from_2 Seed_word_eq
  by (cases r0) (auto simp: s_get_def s_set_def split: if_splits option.splits)

section \<open>What \<open>Bytes\<close> writes and draws\<close>

lemma little_endian_unfold:
  "little_endian x = [ucast x, ucast (drop_bit 8 x), ucast (drop_bit 16 x), ucast (drop_bit 24 x),
     ucast (drop_bit 32 x), ucast (drop_bit 40 x), ucast (drop_bit 48 x), ucast (drop_bit 56 x)]"
  by (simp add: little_endian_def upt_rec)

lemma length_little_endian: "length (little_endian x) = 8"
  by (simp add: little_endian_def)

lemma splice8:
  assumes "i + 8 \<le> length bs"
  shows "bs[i := b0, i + 1 := b1, i + 2 := b2, i + 3 := b3, i + 4 := b4, i + 5 := b5, i + 6 := b6, i + 7 := b7]
           = take i bs @ [b0, b1, b2, b3, b4, b5, b6, b7] @ drop (i + 8) bs"
proof -
  obtain ys zs where bs: "bs = ys @ zs" and ys: "length ys = i"
    using assms by (metis append_take_drop_id length_take min.absorb2 add_leD1)
  from assms bs ys have "8 \<le> length zs" by simp
  then obtain c0 c1 c2 c3 c4 c5 c6 c7 ws where zs: "zs = c0 # c1 # c2 # c3 # c4 # c5 # c6 # c7 # ws"
    by (auto simp: Suc_le_length_iff eval_nat_numeral)
  show ?thesis
    unfolding bs zs using ys by (simp add: list_update_append)
qed


lemma store_in: "i < length bs \<Longrightarrow> store bs i v = Some (bs[i := v])"
  by (simp add: store_def)

lemma chunk_stores:
  assumes "i + 8 \<le> length bytes"
  shows "do {
          bytes \<leftarrow> store bytes i (ucast x);
          bytes \<leftarrow> store bytes (i + 1) (ucast (drop_bit 8 x));
          bytes \<leftarrow> store bytes (i + 2) (ucast (drop_bit 16 x));
          bytes \<leftarrow> store bytes (i + 3) (ucast (drop_bit 24 x));
          bytes \<leftarrow> store bytes (i + 4) (ucast (drop_bit 32 x));
          bytes \<leftarrow> store bytes (i + 5) (ucast (drop_bit 40 x));
          bytes \<leftarrow> store bytes (i + 6) (ucast (drop_bit 48 x));
          bytes \<leftarrow> store bytes (i + 7) (ucast (drop_bit 56 x));
          f bytes
        } = f (take i bytes @ little_endian x @ drop (i + 8) bytes)"
  using assms splice8 [OF assms, of "ucast x" "ucast (drop_bit 8 x)" "ucast (drop_bit 16 x)"
      "ucast (drop_bit 24 x)" "ucast (drop_bit 32 x)" "ucast (drop_bit 40 x)"
      "ucast (drop_bit 48 x)" "ucast (drop_bit 56 x)"]
  by (simp add: store_in little_endian_unfold)

lemma draw_words_length: "length (fst (draw_words g r k)) = k"
proof (induction k arbitrary: r)
  case 0
  show ?case by simp
next
  case (Suc k)
  obtain x r1 where d: "g r = (x, r1)" by (cases "g r")
  obtain xs r2 where e: "draw_words g r1 k = (xs, r2)" by (cases "draw_words g r1 k")
  from Suc [of r1] e have "length xs = k" by simp
  with d e show ?case by simp
qed

lemma Bytes_chunks_eq:
  assumes "i + bytesToGo \<le> length bytes"
  shows "Bytes_chunks g r bytes i bytesToGo =
     (case draw_words g r (bytesToGo div 8) of (ws, r') \<Rightarrow>
        Some (take i bytes @ concat (map little_endian ws) @ drop (i + 8 * (bytesToGo div 8)) bytes,
              i + 8 * (bytesToGo div 8), r'))"
  using assms
proof (induction g r bytes i bytesToGo rule: Bytes_chunks.induct)
  case (1 g r bytes i bytesToGo)
  show ?case
  proof (cases "bytesToGo < 8")
    case True
    then show ?thesis
      by (subst Bytes_chunks.simps) simp
  next
    case False
    obtain x r1 where d: "g r = (x, r1)" by (cases "g r")
    define bytes1 where "bytes1 = take i bytes @ little_endian x @ drop (i + 8) bytes"
    have len: "length bytes1 = length bytes"
      using False 1(2) by (simp add: bytes1_def length_little_endian)
    have k: "bytesToGo div 8 = Suc ((bytesToGo - 8) div 8)"
      using False by (simp add: le_div_geq)
    have le: "i + 8 \<le> length bytes" using False 1(2) by simp
    have step: "Bytes_chunks g r bytes i bytesToGo = Bytes_chunks g r1 bytes1 (i + 8) (bytesToGo - 8)"
      by (subst Bytes_chunks.simps)
         (simp only: False if_False d prod.case chunk_stores [OF le] bytes1_def)
    define b1 where "b1 = bytes[i := ucast x]"
    define b2 where "b2 = b1[i + 1 := ucast (drop_bit 8 x)]"
    define b3 where "b3 = b2[i + 2 := ucast (drop_bit 16 x)]"
    define b4 where "b4 = b3[i + 3 := ucast (drop_bit 24 x)]"
    define b5 where "b5 = b4[i + 4 := ucast (drop_bit 32 x)]"
    define b6 where "b6 = b5[i + 5 := ucast (drop_bit 40 x)]"
    define b7 where "b7 = b6[i + 6 := ucast (drop_bit 48 x)]"
    define b8 where "b8 = b7[i + 7 := ucast (drop_bit 56 x)]"
    note bs = b1_def b2_def b3_def b4_def b5_def b6_def b7_def b8_def
    have b8: "b8 = bytes1"
      unfolding bs bytes1_def little_endian_unfold by (rule splice8 [OF le])
    have st: "store bytes i (ucast x) = Some b1"
      "store b1 (i + 1) (ucast (drop_bit 8 x)) = Some b2"
      "store b2 (i + 2) (ucast (drop_bit 16 x)) = Some b3"
      "store b3 (i + 3) (ucast (drop_bit 24 x)) = Some b4"
      "store b4 (i + 4) (ucast (drop_bit 32 x)) = Some b5"
      "store b5 (i + 5) (ucast (drop_bit 40 x)) = Some b6"
      "store b6 (i + 6) (ucast (drop_bit 48 x)) = Some b7"
      "store b7 (i + 7) (ucast (drop_bit 56 x)) = Some b8"
      using le by (simp_all add: store_def bs)
    have "i + 8 + (bytesToGo - 8) \<le> length b8"
      using False 1(2) len by (simp add: b8)
    from "1.IH" [OF False d [symmetric] st this]
    have IH: "Bytes_chunks g r1 bytes1 (i + 8) (bytesToGo - 8) =
     (case draw_words g r1 ((bytesToGo - 8) div 8) of (ws, r') \<Rightarrow>
        Some (take (i + 8) bytes1 @ concat (map little_endian ws) @ drop (i + 8 + 8 * ((bytesToGo - 8) div 8)) bytes1,
              i + 8 + 8 * ((bytesToGo - 8) div 8), r'))"
      unfolding b8 .
    have t: "take (i + 8) bytes1 = take i bytes @ little_endian x"
      using False 1(2) by (simp add: bytes1_def length_little_endian)
    have dr: "drop (i + 8 + m) bytes1 = drop (i + 8 + m) bytes" for m
      using False 1(2) by (simp add: bytes1_def length_little_endian add.commute)
    show ?thesis
      unfolding step IH k t dr
      by (simp add: d add.assoc split: prod.splits)
  qed
qed


lemma Bytes_tail_eq:
  assumes "n \<le> length bytes" "i \<le> n"
  shows "Bytes_tail n x bytes i =
     Some (take i bytes @ map (\<lambda>j. ucast (drop_bit (8 * j) x)) [0..<n - i] @ drop n bytes)"
  using assms
proof (induction n x bytes i rule: Bytes_tail.induct)
  case (1 n x bytes i)
  show ?case
  proof (cases "i \<ge> n")
    case True
    with 1(2,3) show ?thesis
      by (subst Bytes_tail.simps) simp
  next
    case False
    define b1 where "b1 = bytes[i := ucast x]"
    have st: "store bytes i (ucast x) = Some b1"
      using False 1(2) by (simp add: store_def b1_def)
    have "n \<le> length b1" "i + 1 \<le> n"
      using False 1(2) by (simp_all add: b1_def)
    note IH = "1.IH" [OF False st this]
    have step: "Bytes_tail n x bytes i = Bytes_tail n (drop_bit 8 x) b1 (i + 1)"
      by (subst Bytes_tail.simps) (simp only: False if_False st bind.bind_lunit)
    have u: "[0..<n - i] = 0 # map Suc [0..<n - (i + 1)]"
      using False by (simp add: upt_conv_Cons map_Suc_upt Suc_diff_Suc)
    have t: "take (i + 1) b1 = take i bytes @ [ucast x]"
      using False 1(2) by (simp add: b1_def take_Suc_conv_app_nth)
    have d: "drop n b1 = drop n bytes"
      using False by (simp add: b1_def)
    show ?thesis
      unfolding step IH u t d by (simp add: comp_def drop_bit_drop_bit ac_simps)
  qed
qed


lemma draw_words_snoc:
  "draw_words g r (Suc k) =
     (case draw_words g r k of (ws, r1) \<Rightarrow> case g r1 of (x, r2) \<Rightarrow> (ws @ [x], r2))"
proof (induction k arbitrary: r)
  case 0
  show ?case by (simp split: prod.splits)
next
  case (Suc k)
  obtain x r1 where d: "g r = (x, r1)" by (cases "g r")
  have "draw_words g r (Suc (Suc k)) = (case draw_words g r1 (Suc k) of (xs, r'') \<Rightarrow> (x # xs, r''))"
    using d by (simp del: draw_words.simps add: draw_words.simps(2) [of g r])
  also have "\<dots> = (case draw_words g r (Suc k) of (ws, r1) \<Rightarrow> case g r1 of (x, r2) \<Rightarrow> (ws @ [x], r2))"
    unfolding Suc [of r1] using d by (simp split: prod.splits)
  finally show ?case .
qed

lemma length_concat_little_endian: "length (concat (map little_endian ws)) = 8 * length ws"
  by (induction ws) (simp_all add: length_little_endian)

lemma take_little_endian:
  "m \<le> 8 \<Longrightarrow> take m (little_endian x) = map (\<lambda>j. ucast (drop_bit (8 * j) x)) [0..<m]"
  by (simp add: little_endian_def take_map)

lemma Bytes_eq:
  "Bytes g r bytes =
     (case draw_words g r (length bytes div 8 + 1) of (ws, r') \<Rightarrow>
        Some (take (length bytes) (concat (map little_endian ws)), r'))"
proof -
  define n where "n = length bytes"
  define k where "k = n div 8"
  obtain ws r1 where dw: "draw_words g r k = (ws, r1)" by (cases "draw_words g r k")
  obtain x r2 where d: "g r1 = (x, r2)" by (cases "g r1")
  have lws: "length ws = k"
    using draw_words_length [of g r k] dw by simp
  define bytes1 where "bytes1 = concat (map little_endian ws) @ drop (8 * k) bytes"
  have k8: "8 * k \<le> n" by (simp add: k_def)
  have nk: "n - 8 * k = n mod 8" "n - 8 * k \<le> 8"
    unfolding k_def by (simp_all add: minus_mult_div_eq_mod)
  have len1: "length bytes1 = n"
    using k8 by (simp add: bytes1_def length_concat_little_endian lws n_def)
  have c: "Bytes_chunks g r bytes 0 n = Some (bytes1, 8 * k, r1)"
    using Bytes_chunks_eq [of 0 n bytes g r] dw
    by (simp add: n_def [symmetric] k_def [symmetric] bytes1_def)
  have t: "Bytes_tail n x bytes1 (8 * k) =
        Some (concat (map little_endian ws) @ take (n - 8 * k) (little_endian x))"
    using Bytes_tail_eq [of n bytes1 "8 * k" x] k8 len1 nk(2)
    by (simp add: take_little_endian) (simp add: bytes1_def length_concat_little_endian lws)
  have l: "Bytes g r bytes = Some (concat (map little_endian ws) @ take (n - 8 * k) (little_endian x), r2)"
    unfolding Bytes_def Let_def n_def [symmetric] c by (simp add: d t)
  have dws: "draw_words g r (Suc k) = (ws @ [x], r2)"
    using dw d by (simp add: draw_words_snoc del: draw_words.simps)
  have e: "length bytes div 8 + 1 = Suc k"
    by (simp add: k_def n_def)
  show ?thesis
    unfolding l e dws using k8
    by (simp add: n_def [symmetric] length_concat_little_endian lws)
qed

text \<open>Byte \<open>j\<close> of the encoded words is byte \<open>j mod 8\<close> of word \<open>j div 8\<close>.\<close>

lemma nth_little_endian:
  "j < 8 \<Longrightarrow> little_endian x ! j = ucast (drop_bit (8 * j) x)"
  by (simp add: little_endian_def)

lemma nth_concat_little_endian:
  "j < 8 * length ws \<Longrightarrow>
     concat (map little_endian ws) ! j = ucast (drop_bit (8 * (j mod 8)) (ws ! (j div 8)))"
proof (induction ws arbitrary: j)
  case Nil
  then show ?case by simp
next
  case (Cons x ws)
  show ?case
  proof (cases "j < 8")
    case True
    then show ?thesis
      by (simp add: nth_append length_little_endian nth_little_endian)
  next
    case False
    then have j: "j = (j - 8) + 8" by simp
    have m: "j mod 8 = (j - 8) mod 8" and d: "j div 8 = Suc ((j - 8) div 8)"
      using False by (simp_all add: le_mod_geq le_div_geq)
    have "j - 8 < 8 * length ws"
      using Cons.prems False by simp
    from Cons.IH [OF this] False show ?thesis
      by (simp add: nth_append length_little_endian m d)
  qed
qed

section \<open>Counting the draws\<close>

lemma draw_words_counting:
  "draw_words (counting g) (r, c) k = (case draw_words g r k of (ws, r') \<Rightarrow> (ws, (r', c + k)))"
proof (induction k arbitrary: r c)
  case 0
  show ?case by simp
next
  case (Suc k)
  obtain x r1 where d: "g r = (x, r1)" by (cases "g r")
  have "counting g (r, c) = (x, (r1, c + 1))"
    by (simp add: counting_def d)
  then show ?case
    by (simp add: Suc d split: prod.splits)
qed

section \<open>Masks and the bounded reduction\<close>


lemma mask32: "(0x00000000FFFFFFFF :: uint64) = mask 32"
  by (simp add: mask_eq_exp_minus_1)


lemma reduce_bound:
  assumes "0 < maxN" "maxN \<le> 2 ^ 32 - 1"
  shows "uint (ucast (drop_bit 32 ((w AND 0x00000000FFFFFFFF) * (word_of_int maxN :: uint64))) :: uint32) < maxN"
proof -
  define x where "x = w AND mask 32"
  define m where "m = (word_of_int maxN :: uint64)"
  have "uint x < 2 ^ 32"
    unfolding x_def by (rule and_mask_lt_2p)
  then have ux: "unat x < 2 ^ 32"
    by (simp add: unat_eq_nat_uint nat_less_iff del: nat_uint_eq)
  have "uint m = maxN"
    using assms unfolding m_def by (simp add: uint_word_of_int)
  then have um: "unat m = nat maxN"
    by (simp add: unat_eq_nat_uint del: nat_uint_eq)
  have mb: "nat maxN < 2 ^ 32" using assms by (simp add: nat_less_iff)
  have "unat x * unat m < 2 ^ 32 * 2 ^ 32"
    using ux mb unfolding um by (intro mult_strict_mono) simp_all
  then have "unat x * unat m < 2 ^ LENGTH(64)" by simp
  then have "unat (x * m) = unat x * unat m"
    by (rule unat_mult_lem [THEN iffD1])
  then have prod: "unat (x * m) = unat x * nat maxN"
    by (simp only: um)
  have q: "unat (drop_bit 32 (x * m)) = (unat x * nat maxN) div 2 ^ 32"
    by (subst unat_drop_bit_eq) (simp only: prod drop_bit_eq_div)
  have "unat x * nat maxN < 2 ^ 32 * nat maxN"
    using ux assms(1) by simp
  then have lt: "(unat x * nat maxN) div 2 ^ 32 < nat maxN"
    by (simp add: less_mult_imp_div_less mult.commute)
  then have "(unat x * nat maxN) div 2 ^ 32 < 2 ^ 32"
    using mb by simp
  then have "unat (ucast (drop_bit 32 (x * m)) :: uint32) = (unat x * nat maxN) div 2 ^ 32"
    by (simp add: unsigned_ucast_eq q take_bit_nat_eq_self)
  with lt have "unat (ucast (drop_bit 32 (x * m)) :: uint32) < nat maxN" by simp
  then have "uint (ucast (drop_bit 32 (x * m)) :: uint32) < maxN"
    using assms(1) by (simp add: unat_eq_nat_uint nat_less_iff del: nat_uint_eq)
  then show ?thesis
    unfolding x_def m_def mask32 .
qed

section \<open>Values of the generator at fixed inputs\<close>

lemma splitmix64_at_0: "splitmix64 0 = 16294208416658607535"
  by (simp add: splitmix64_def)

lemma splitmix64_at_1: "splitmix64 1 = 10451216379200822465"
  by (simp add: splitmix64_def)

lemma splitmix64_at_2: "splitmix64 2 = 10905525725756348110"
  by (simp add: splitmix64_def)

lemma splitmix64_at_3: "splitmix64 3 = 2092789425003139053"
  by (simp add: splitmix64_def)

lemma splitmix64_root: "splitmix64 0x61C8864680B583EB = 0"
  by (simp add: splitmix64_def)

lemma New_at_0:
  "NewUnsafeXoshiro256ssRNG 0 =
     Some \<lparr>s0 = 16294208416658607535, s1 = 10451216379200822465,
       s2 = 10905525725756348110, s3 = 2092789425003139053\<rparr>"
  by (simp add: New_closed splitmix64_at_0 splitmix64_at_1 splitmix64_at_2 splitmix64_at_3)

lemma Uint64_at_seed_0:
  "Uint64 \<lparr>s0 = 16294208416658607535, s1 = 10451216379200822465,
       s2 = 10905525725756348110, s3 = 2092789425003139053\<rparr> =
     (7280431682470476346,
      \<lparr>s0 = 7935783658732789379, s1 = 16461413153285654432,
       s2 = 3360125005840554849, s3 = 8819615424873302592\<rparr>)"
  by (simp add: Uint64_def rol64_def Let_def)

lemma little_endian_at_seed_0:
  "little_endian 7280431682470476346 = [58, 250, 38, 181, 10, 74, 9, 101]"
  by (simp add: little_endian_unfold)

lemma Uint64_at_seed_0_next:
  "Uint64 \<lparr>s0 = 7935783658732789379, s1 = 16461413153285654432,
            s2 = 3360125005840554849, s3 = 8819615424873302592\<rparr> =
     (1475224058274222611,
      \<lparr>s0 = 17309216534525629283, s1 = 11885754614045098562,
        s2 = 2348560975001978338, s3 = 4160221883556526389\<rparr>)"
  by (simp add: Uint64_def rol64_def Let_def)

lemma little_endian_at_seed_0_next:
  "little_endian 1475224058274222611 = [19, 146, 139, 5, 119, 12, 121, 20]"
  by (simp add: little_endian_unfold)

lemma draw_words_at_seed_0:
  "draw_words Uint64 \<lparr>s0 = 16294208416658607535, s1 = 10451216379200822465,
       s2 = 10905525725756348110, s3 = 2092789425003139053\<rparr> (Suc 0) = ([7280431682470476346],
      \<lparr>s0 = 7935783658732789379, s1 = 16461413153285654432,
        s2 = 3360125005840554849, s3 = 8819615424873302592\<rparr>)"
  "draw_words Uint64 \<lparr>s0 = 16294208416658607535, s1 = 10451216379200822465,
       s2 = 10905525725756348110, s3 = 2092789425003139053\<rparr> (Suc (Suc 0)) = ([7280431682470476346, 1475224058274222611],
      \<lparr>s0 = 17309216534525629283, s1 = 11885754614045098562,
        s2 = 2348560975001978338, s3 = 4160221883556526389\<rparr>)"
  by (simp_all add: Uint64_at_seed_0 Uint64_at_seed_0_next)

lemma Uint64_at_1234:
  "Uint64 \<lparr>s0 = 1, s1 = 2, s2 = 3, s3 = 4\<rparr> =
     (11520, \<lparr>s0 = 7, s1 = 0, s2 = 262146, s3 = 211106232532992\<rparr>)"
  by (simp add: Uint64_def rol64_def Let_def)

lemma Uint64_closed:
  "Uint64 \<lparr>s0 = a, s1 = b, s2 = c, s3 = d\<rparr> =
     (word_rotl 7 (b * 5) * 9,
      \<lparr>s0 = a XOR (d XOR b), s1 = b XOR (c XOR a),
        s2 = (c XOR a) XOR push_bit 17 b, s3 = word_rotl 45 (d XOR b)\<rparr>)"
  by (simp add: Uint64_def rol64_7 rol64_45 Let_def)

section \<open>The claims\<close>

text \<open>
  C1 (as the code has it). For every generator, every state of it and every buffer of
  length \<open>n\<close>, \<open>Bytes\<close> returns and has made exactly \<open>n div 8 + 1\<close> draws: one for each
  full chunk of eight bytes and one more, never more than one word beyond \<open>n div 8\<close>.
  On the empty buffer that is one draw, and the buffer comes back unchanged. The draws
  are read off the counter of a counting generator wrapped around the given one.
\<close>

theorem Bytes_draws_one_more_word:
  "(\<exists>bytes' r'. Bytes (counting g) (r, c) bytes = Some (bytes', (r', c + (length bytes div 8 + 1))))
   \<and> Bytes (counting g) (r, c) [] = Some ([], (snd (g r), c + 1))"
proof -
  obtain ws r' where d: "draw_words g r (length bytes div 8 + 1) = (ws, r')"
    by (cases "draw_words g r (length bytes div 8 + 1)")
  have "Bytes (counting g) (r, c) bytes
          = Some (take (length bytes) (concat (map little_endian ws)), (r', c + (length bytes div 8 + 1)))"
    unfolding Bytes_eq draw_words_counting d by simp
  moreover have "Bytes (counting g) (r, c) [] = Some ([], (snd (g r), c + 1))"
    by (simp add: Bytes_eq counting_def split: prod.splits)
  ultimately show ?thesis by blast
qed

text \<open>
  C1 as stated fails: on the empty buffer \<open>Bytes\<close> makes one draw, not none. Here the
  generator is xoshiro256** in the state (1, 2, 3, 4) with its counter at 0; after the
  call the counter is 1 and the generator has made a step.
\<close>

theorem Bytes_empty_buffer_draws_counterexample:
  "Bytes (counting Uint64) (\<lparr>s0 = 1, s1 = 2, s2 = 3, s3 = 4\<rparr>, 0) [] =
     Some ([], (\<lparr>s0 = 7, s1 = 0, s2 = 262146, s3 = 211106232532992\<rparr>, 1))"
  by (simp add: Bytes_eq counting_def Uint64_at_1234)

text \<open>
  C2 fails on the code. The seed 7046029254386353131 (0x61C8864680B583EB) is sent to 0
  by \<open>splitmix64\<close>, and the loop for word 0 assigns that same 0 again at every turn: on
  a new generator \<open>Seed\<close> never returns. By \<open>New_None_iff\<close> this seed and the three
  below it are the only ones where that happens.
\<close>

theorem Seed_never_returns:
  "NewUnsafeXoshiro256ssRNG 0x61C8864680B583EB = None
   \<and> Seed_word 0x61C8864680B583EB 0 \<lparr>s0 = 0, s1 = 0, s2 = 0, s3 = 0\<rparr> = None
   \<and> sint (0x61C8864680B583EB :: int64) = 7046029254386353131"
  by (simp add: New_closed Seed_word_eq splitmix64_root s_get_def)

text \<open>
  C3. From any state (a, b, c, d), \<open>Uint64\<close> returns \<open>rotate_left(b * 5, 7) * 9\<close> and
  leaves the state that the six steps of the specification give, which is \<open>next_word\<close>;
  worked out, the new words are \<open>a XOR d XOR b\<close>, \<open>b XOR c XOR a\<close>,
  \<open>c XOR a XOR (b << 17)\<close> and \<open>rotate_left(d XOR b, 45)\<close>.
\<close>

theorem Uint64_is_next_word:
  "Uint64 \<lparr>s0 = a, s1 = b, s2 = c, s3 = d\<rparr> =
     (case next_word (a, b, c, d) of
        (result, (a', b', c', d')) \<Rightarrow> (result, \<lparr>s0 = a', s1 = b', s2 = c', s3 = d'\<rparr>))
   \<and> Uint64 \<lparr>s0 = a, s1 = b, s2 = c, s3 = d\<rparr> =
     (word_rotl 7 (b * 5) * 9,
      \<lparr>s0 = a XOR (d XOR b), s1 = b XOR (c XOR a),
        s2 = (c XOR a) XOR push_bit 17 b, s3 = word_rotl 45 (d XOR b)\<rparr>)"
  by (simp add: Uint64_closed next_word_def Let_def)

text \<open>
  C4. Whenever seeding a new generator returns, for any seed \<open>k\<close>, none of the four
  state words is zero.
\<close>

theorem seeded_state_nonzero:
  assumes "NewUnsafeXoshiro256ssRNG k = Some r"
  shows "s0 r \<noteq> 0 \<and> s1 r \<noteq> 0 \<and> s2 r \<noteq> 0 \<and> s3 r \<noteq> 0"
  using assms by (auto simp: New_closed split: if_splits)

theorem seeded_state_nonzero_witness:
  "\<exists>r. NewUnsafeXoshiro256ssRNG 0 = Some r \<and> s0 r \<noteq> 0 \<and> s1 r \<noteq> 0 \<and> s2 r \<noteq> 0 \<and> s3 r \<noteq> 0"
  using seeded_state_nonzero [OF New_at_0] New_at_0 by blast

text \<open>
  C5. For every generator and every buffer of length \<open>n\<close>, \<open>Bytes\<close> returns, without an
  index out of range, a buffer of length \<open>n\<close> in which every byte has been written: it
  is the first \<open>n\<close> bytes of the little-endian encodings of the \<open>n div 8 + 1\<close> words
  drawn, in the order drawn, so that byte \<open>j\<close> is byte \<open>j mod 8\<close> of word \<open>j div 8\<close>,
  whatever the buffer held before; the generator is left after those draws. When \<open>n\<close>
  is at least 8 the first eight bytes are the little-endian encoding of the first word
  drawn; when \<open>0 < n < 8\<close> the buffer is the low \<open>n\<close> bytes of the first word drawn,
  lowest first.
\<close>

theorem Bytes_fills_little_endian:
  "\<exists>bytes' r'. Bytes g r bytes = Some (bytes', r')
     \<and> length bytes' = length bytes
     \<and> bytes' = take (length bytes)
          (concat (map little_endian (fst (draw_words g r (length bytes div 8 + 1)))))
     \<and> (\<forall>j < length bytes.
          bytes' ! j = ucast (drop_bit (8 * (j mod 8))
                                (fst (draw_words g r (length bytes div 8 + 1)) ! (j div 8))))
     \<and> r' = snd (draw_words g r (length bytes div 8 + 1))
     \<and> (8 \<le> length bytes \<longrightarrow> take 8 bytes' = little_endian (fst (g r)))
     \<and> (0 < length bytes \<and> length bytes < 8
          \<longrightarrow> bytes' = take (length bytes) (little_endian (fst (g r))))"
proof -
  define n where "n = length bytes"
  obtain x r1 where d: "g r = (x, r1)" by (cases "g r")
  obtain ws r' where dw: "draw_words g r1 (n div 8) = (ws, r')"
    by (cases "draw_words g r1 (n div 8)")
  have lws: "length ws = n div 8"
    using draw_words_length [of g r1 "n div 8"] dw by simp
  have all: "draw_words g r (n div 8 + 1) = (x # ws, r')"
    by (simp add: d dw)
  define out where "out = take n (concat (map little_endian (x # ws)))"
  have B: "Bytes g r bytes = Some (out, r')"
    unfolding Bytes_eq n_def [symmetric] all out_def by simp
  have bound: "n < 8 * length (x # ws)"
    unfolding length_Cons lws by presburger
  then have len: "length out = n"
    by (simp add: out_def length_little_endian length_concat_little_endian)
  have idx: "out ! j = ucast (drop_bit (8 * (j mod 8)) ((x # ws) ! (j div 8)))" if "j < n" for j
  proof -
    from that bound have "j < 8 * length (x # ws)" by simp
    then show ?thesis
      unfolding out_def nth_take [OF that] by (rule nth_concat_little_endian)
  qed
  have first: "take 8 out = little_endian x" if "8 \<le> n"
    using that by (simp add: out_def length_little_endian take_take min_def)
  have short: "out = take n (little_endian x)" if "n < 8"
    using that by (simp add: out_def length_little_endian)
  have "Bytes g r bytes = Some (out, r') \<and> length out = n
      \<and> out = take n (concat (map little_endian (x # ws)))
      \<and> (\<forall>j < n. out ! j = ucast (drop_bit (8 * (j mod 8)) ((x # ws) ! (j div 8))))
      \<and> r' = r'
      \<and> (8 \<le> n \<longrightarrow> take 8 out = little_endian x)
      \<and> (0 < n \<and> n < 8 \<longrightarrow> out = take n (little_endian x))"
    using B len idx first short out_def by blast
  then show ?thesis
    unfolding n_def [symmetric] all d fst_conv snd_conv by blast
qed

theorem Bytes_fills_little_endian_witness:
  "(\<exists>r'.
      Bytes Uint64 \<lparr>s0 = 16294208416658607535, s1 = 10451216379200822465,
       s2 = 10905525725756348110, s3 = 2092789425003139053\<rparr> [0, 0, 0, 0, 0, 0, 0, 0, 0] = Some ([58, 250, 38, 181, 10, 74, 9, 101, 19], r'))
   \<and> (\<exists>r'.
      Bytes Uint64 \<lparr>s0 = 16294208416658607535, s1 = 10451216379200822465,
       s2 = 10905525725756348110, s3 = 2092789425003139053\<rparr> [0, 0, 0] = Some ([58, 250, 38], r'))"
proof -
  have k9: "(9 :: nat) div 8 + 1 = Suc (Suc 0)"
    and len9: "length [0, 0, 0, 0, 0, 0, 0, 0, 0 :: byte] = 9"
    by simp_all
  have k3: "(3 :: nat) div 8 + 1 = Suc 0"
    and len3: "length [0, 0, 0 :: byte] = 3"
    by simp_all
  have t9: "take 9 (concat (map little_endian [7280431682470476346, 1475224058274222611]))
              = [58, 250, 38, 181, 10, 74, 9, 101, 19]"
    by (simp add: little_endian_at_seed_0 little_endian_at_seed_0_next)
  have t3: "take 3 (concat (map little_endian [7280431682470476346])) = [58, 250, 38]"
    by (simp add: little_endian_at_seed_0)
  from Bytes_fills_little_endian [of Uint64 "\<lparr>s0 = 16294208416658607535, s1 = 10451216379200822465,
       s2 = 10905525725756348110, s3 = 2092789425003139053\<rparr>" "[0, 0, 0, 0, 0, 0, 0, 0, 0]"]
  have a: "\<exists>r'. Bytes Uint64 \<lparr>s0 = 16294208416658607535, s1 = 10451216379200822465,
       s2 = 10905525725756348110, s3 = 2092789425003139053\<rparr> [0, 0, 0, 0, 0, 0, 0, 0, 0]
              = Some ([58, 250, 38, 181, 10, 74, 9, 101, 19], r')"
    unfolding len9 k9 draw_words_at_seed_0 fst_conv t9 by blast
  from Bytes_fills_little_endian [of Uint64 "\<lparr>s0 = 16294208416658607535, s1 = 10451216379200822465,
       s2 = 10905525725756348110, s3 = 2092789425003139053\<rparr>" "[0, 0, 0]"]
  have b: "\<exists>r'. Bytes Uint64 \<lparr>s0 = 16294208416658607535, s1 = 10451216379200822465,
       s2 = 10905525725756348110, s3 = 2092789425003139053\<rparr> [0, 0, 0] = Some ([58, 250, 38], r')"
    unfolding len3 k3 draw_words_at_seed_0 fst_conv t3 by blast
  from a b show ?thesis ..
qed

text \<open>
  C6. For every \<open>maxN\<close> with \<open>0 < maxN \<le> 2 ^ 32 - 1\<close>, every pool and every word the
  pooled generator draws, the value \<open>Uint32n\<close> returns is below \<open>maxN\<close>.
\<close>

theorem Uint32n_below_bound:
  assumes "ThreadsafePoolRNG_Uint32n g k s maxN = Some (v, s')"
    and "0 < maxN" and "maxN \<le> 2 ^ 32 - 1"
  shows "uint v < maxN"
  using assms(1) reduce_bound [OF assms(2,3)]
  by (auto simp: ThreadsafePoolRNG_Uint32n_def Let_def split: option.splits prod.splits)

theorem Uint32n_below_bound_witness:
  "ThreadsafePoolRNG_Uint32n Uint64 0 \<lparr>idle = [\<lparr>s0 = 16294208416658607535, s1 = 10451216379200822465,
       s2 = 10905525725756348110, s3 = 2092789425003139053\<rparr>], New = (\<lambda>e. None), env = ()\<rparr> 10
     = Some (7, \<lparr>idle = [\<lparr>s0 = 7935783658732789379, s1 = 16461413153285654432,
       s2 = 3360125005840554849, s3 = 8819615424873302592\<rparr>], New = (\<lambda>e. None), env = ()\<rparr>)
   \<and> (0 :: int) < 10 \<and> (10 :: int) \<le> 2 ^ 32 - 1 \<and> uint (7 :: uint32) < 10"
proof -
  have h: "ThreadsafePoolRNG_Uint32n Uint64 0 \<lparr>idle = [\<lparr>s0 = 16294208416658607535, s1 = 10451216379200822465,
       s2 = 10905525725756348110, s3 = 2092789425003139053\<rparr>], New = (\<lambda>e. None), env = ()\<rparr> 10
     = Some (7, \<lparr>idle = [\<lparr>s0 = 7935783658732789379, s1 = 16461413153285654432,
       s2 = 3360125005840554849, s3 = 8819615424873302592\<rparr>], New = (\<lambda>e. None), env = ()\<rparr>)"
    by (simp add: ThreadsafePoolRNG_Uint32n_def ThreadsafePoolRNG_Uint64_def rngPool_Get_def
        rngPool_Put_def Uint64_at_seed_0)
  have p: "(0 :: int) < 10" and q: "(10 :: int) \<le> 2 ^ 32 - 1"
    by simp_all
  from Uint32n_below_bound [OF h p q] h p q show ?thesis by simp
qed

text \<open>
  C7. \<open>Seed\<close> on the pool panics with its one message for every seed and every pool,
  and the pool after the call is the pool before it.
\<close>

theorem ThreadsafePoolRNG_Seed_panics:
  "ThreadsafePoolRNG_Seed s seed = (Inl (Panic ''Cant seed a ThreadsafePoolRNG''), s)"
  by (simp add: ThreadsafePoolRNG_Seed_def)

text \<open>
  C8. Two new generators seeded with the same \<open>k\<close> draw the same \<open>m\<close> words, for every
  \<open>k\<close> for which seeding returns and every \<open>m\<close>: both start from the state whose words
  are \<open>splitmix64\<close> of \<open>k\<close>, \<open>k + 1\<close>, \<open>k + 2\<close> and \<open>k + 3\<close>, and nothing else enters.
\<close>

theorem same_seed_same_words:
  assumes "NewUnsafeXoshiro256ssRNG k = Some r1" and "NewUnsafeXoshiro256ssRNG k = Some r2"
  shows "draw_words Uint64 r1 m = draw_words Uint64 r2 m
     \<and> draw_words Uint64 r1 m =
         draw_words Uint64 \<lparr>s0 = splitmix64 k, s1 = splitmix64 (k + 1),
                              s2 = splitmix64 (k + 2), s3 = splitmix64 (k + 3)\<rparr> m"
  using assms by (auto simp: New_closed split: if_splits)

theorem same_seed_same_words_witness:
  "NewUnsafeXoshiro256ssRNG 0 = Some \<lparr>s0 = 16294208416658607535, s1 = 10451216379200822465,
       s2 = 10905525725756348110, s3 = 2092789425003139053\<rparr>
   \<and> draw_words Uint64 \<lparr>s0 = 16294208416658607535, s1 = 10451216379200822465,
       s2 = 10905525725756348110, s3 = 2092789425003139053\<rparr> (Suc 0) =
       draw_words Uint64 \<lparr>s0 = splitmix64 0, s1 = splitmix64 (0 + 1),
                            s2 = splitmix64 (0 + 2), s3 = splitmix64 (0 + 3)\<rparr> (Suc 0)
   \<and> fst (draw_words Uint64 \<lparr>s0 = 16294208416658607535, s1 = 10451216379200822465,
       s2 = 10905525725756348110, s3 = 2092789425003139053\<rparr> (Suc 0)) = [7280431682470476346]"
  using same_seed_same_words [OF New_at_0 New_at_0, of "Suc 0"] New_at_0
  by (simp add: Uint64_at_seed_0 splitmix64_at_0 splitmix64_at_1 splitmix64_at_2 splitmix64_at_3)

text \<open>
  C9. The state of four zero words is a fixed point: \<open>Uint64\<close> returns 0 from it and
  leaves it as it is, so any number of draws from it gives zeros and ends in it.
\<close>

theorem zero_state_fixed:
  "Uint64 \<lparr>s0 = 0, s1 = 0, s2 = 0, s3 = 0\<rparr> = (0, \<lparr>s0 = 0, s1 = 0, s2 = 0, s3 = 0\<rparr>)
   \<and> draw_words Uint64 \<lparr>s0 = 0, s1 = 0, s2 = 0, s3 = 0\<rparr> m = (replicate m 0, \<lparr>s0 = 0, s1 = 0, s2 = 0, s3 = 0\<rparr>)"
proof -
  have z: "Uint64 \<lparr>s0 = 0, s1 = 0, s2 = 0, s3 = 0\<rparr> = (0, \<lparr>s0 = 0, s1 = 0, s2 = 0, s3 = 0\<rparr>)"
    by (simp add: Uint64_def rol64_def)
  have "draw_words Uint64 \<lparr>s0 = 0, s1 = 0, s2 = 0, s3 = 0\<rparr> m = (replicate m 0, \<lparr>s0 = 0, s1 = 0, s2 = 0, s3 = 0\<rparr>)"
    by (induction m) (simp_all add: z)
  with z show ?thesis by simp
qed



end
